theory Spec2Isabelle
  imports Main "HOL-Library.List_Lexorder"
begin

section \<open>Shallow embedding of \<open>src/mvn.py\<close>\<close>

subsection \<open>Strings, bytes and the Unicode character classes\<close>

text \<open>
  A Python \<open>str\<close> is a sequence of Unicode code points and a \<open>bytes\<close> object a sequence
  of octets; both are lists of naturals here. Python compares \<open>str\<close> values code point by
  code point, a proper prefix being the smaller one, which is the order that
  \<open>HOL-Library.List_Lexorder\<close> puts on \<open>nat list\<close>.
\<close>

type_synonym str = "nat list"
type_synonym bytes = "nat list"

definition ustr :: "string \<Rightarrow> str" where
  \<comment> \<open>an ASCII literal of the source as a list of code points\<close>
  "ustr cs = map of_char cs"

text \<open>
  In a \<open>str\<close> pattern, \<open>\d\<close> is \<open>str.isdecimal\<close> and \<open>\w\<close> is \<open>str.isalnum\<close> or an
  underscore, where \<open>isalnum\<close> is the disjunction of \<open>isalpha\<close>, \<open>isdecimal\<close>, \<open>isdigit\<close> and
  \<open>isnumeric\<close>. The four tables belong to the interpreter's Unicode database and not to
  the program, so they are a parameter of the model.
\<close>

record ucd =
  isalpha :: "nat \<Rightarrow> bool"
  isdecimal :: "nat \<Rightarrow> bool"
  isdigit :: "nat \<Rightarrow> bool"
  isnumeric :: "nat \<Rightarrow> bool"

definition isalnum :: "ucd \<Rightarrow> nat \<Rightarrow> bool" where
  "isalnum U c = (isalpha U c \<or> isdecimal U c \<or> isdigit U c \<or> isnumeric U c)"

definition is_digit :: "ucd \<Rightarrow> nat \<Rightarrow> bool" where
  "is_digit U c = isdecimal U c"

definition is_word :: "ucd \<Rightarrow> nat \<Rightarrow> bool" where
  "is_word U c = (isalnum U c \<or> c = 95)"

definition ascii_ucd :: ucd where
  \<comment> \<open>the Unicode tables restricted to ASCII: the digits \<open>0-9\<close>, the letters \<open>A-Z\<close>, \<open>a-z\<close>\<close>
  "ascii_ucd =
     \<lparr> isalpha = (\<lambda>c. (65 \<le> c \<and> c \<le> 90) \<or> (97 \<le> c \<and> c \<le> 122)),
       isdecimal = (\<lambda>c. 48 \<le> c \<and> c \<le> 57),
       isdigit = (\<lambda>c. 48 \<le> c \<and> c \<le> 57),
       isnumeric = (\<lambda>c. 48 \<le> c \<and> c \<le> 57) \<rparr>"

subsection \<open>The regular expression and the backtracking matcher\<close>

datatype rx =
    Lit nat
  | Digit
  | Word
  | Seq rx rx
  | Alt rx rx
  | Plus rx

abbreviation (input) chars_rx :: rx where
  \<comment> \<open>\<open>(\d|\w)+\<close>\<close>
  "chars_rx \<equiv> Plus (Alt Digit Word)"

abbreviation (input) group_rx :: rx where
  \<comment> \<open>\<open>(\.|-)(\d|\w)+\<close>, with \<open>46\<close> the dot and \<open>45\<close> the hyphen\<close>
  "group_rx \<equiv> Seq (Alt (Lit 46) (Lit 45)) chars_rx"

definition token_rx :: rx where
  \<comment> \<open>\<open>\d+((\.|-)(\d|\w)+)+\<close>, the contents of group 1\<close>
  "token_rx = Seq (Plus Digit) (Plus group_rx)"

definition version_rx :: rx where
  \<comment> \<open>\<open>>(\d+((\.|-)(\d|\w)+)+)\<close>, with \<open>62\<close> the character \<open>>\<close>\<close>
  "version_rx = Seq (Lit 62) token_rx"

definition sym :: "(nat \<Rightarrow> bool) \<Rightarrow> str \<Rightarrow> str list" where
  "sym p s = (case s of [] \<Rightarrow> [] | c # cs \<Rightarrow> if p c then [cs] else [])"

text \<open>
  \<open>rx_match U r s\<close> lists the remainders of \<open>s\<close> after every way of matching \<open>r\<close> at the
  start of \<open>s\<close>, in the order in which the backtracking engine tries them: the left
  branch of an alternative before the right one, and for the greedy \<open>+\<close> one more
  iteration before stopping. An iteration that consumes nothing ends the repetition.
\<close>

function rx_match :: "ucd \<Rightarrow> rx \<Rightarrow> str \<Rightarrow> str list" where
  "rx_match U (Lit c) s = sym (\<lambda>x. x = c) s"
| "rx_match U Digit s = sym (is_digit U) s"
| "rx_match U Word s = sym (is_word U) s"
| "rx_match U (Seq a b) s = concat (map (rx_match U b) (rx_match U a s))"
| "rx_match U (Alt a b) s = rx_match U a s @ rx_match U b s"
| "rx_match U (Plus a) s =
     concat (map (\<lambda>s'. (if length s' < length s then rx_match U (Plus a) s' else []) @ [s'])
                 (rx_match U a s))"
  by pat_completeness auto
termination
  by (relation "inv_image (measure size <*lex*> measure length) (\<lambda>(U, r, s). (r, s))") auto

declare rx_match.simps(6) [simp del]

definition match_at :: "ucd \<Rightarrow> rx \<Rightarrow> str \<Rightarrow> str option" where
  \<comment> \<open>the remainder after the first successful way of matching at the start of \<open>s\<close>\<close>
  "match_at U r s = (case rx_match U r s of [] \<Rightarrow> None | rest # _ \<Rightarrow> Some rest)"

text \<open>
  \<open>re.finditer\<close>: scan from the left, at each position try to match, yield the matched
  text and go on behind it. An empty match yields the empty text and moves one
  character on; the pattern of this program begins with a literal character, so that
  its matches are never empty (lemma \<open>version_rx_consumes\<close> below).
\<close>

function finditer :: "ucd \<Rightarrow> rx \<Rightarrow> str \<Rightarrow> str list" where
  "finditer U r s =
     (case match_at U r s of
        None \<Rightarrow> (case s of [] \<Rightarrow> [] | _ # cs \<Rightarrow> finditer U r cs)
      | Some rest \<Rightarrow>
          (if length rest < length s
           then take (length s - length rest) s # finditer U r rest
           else (case s of [] \<Rightarrow> [[]] | _ # cs \<Rightarrow> [] # finditer U r cs)))"
  by pat_completeness auto
termination
  by (relation "measure (\<lambda>(U, r, s). length s)") auto

declare finditer.simps [simp del]

definition group1 :: "str \<Rightarrow> str" where
  \<comment> \<open>group 1 of \<open>version_rx\<close> is the match without its leading \<open>>\<close>\<close>
  "group1 m = tl m"

definition extract_versions :: "ucd \<Rightarrow> str \<Rightarrow> str list" where
  \<comment> \<open>\<open>[m.group(1) for m in re.finditer(r'>(\d+((\.|-)(\d|\w)+)+)', body)]\<close>\<close>
  "extract_versions U body = map group1 (finditer U version_rx body)"

subsection \<open>Sorting, stripping and decoding\<close>

definition sort_reverse :: "str list \<Rightarrow> str list" where
  \<comment> \<open>\<open>list.sort(reverse=True)\<close>: reverse, sort stably in ascending order, reverse\<close>
  "sort_reverse xs = rev (sort (rev xs))"

definition strip :: "nat \<Rightarrow> str \<Rightarrow> str" where
  \<comment> \<open>\<open>str.strip\<close> with a one-character argument: drop it from both ends\<close>
  "strip c s = rev (dropWhile (\<lambda>x. x = c) (rev (dropWhile (\<lambda>x. x = c) s)))"

definition is_cont :: "nat \<Rightarrow> bool" where
  "is_cont b = (128 \<le> b \<and> b < 192)"

text \<open>
  \<open>bytes.decode('utf-8')\<close> in strict mode: a sequence is rejected when it is truncated,
  when a continuation byte is missing, when it is longer than the shortest form of its
  code point, and when it encodes a surrogate or a value above \<open>0x10FFFF\<close>.
\<close>

fun utf8_decode :: "bytes \<Rightarrow> str option" where
  "utf8_decode [] = Some []"
| "utf8_decode (b0 # bs) =
     (if b0 < 128 then map_option ((#) b0) (utf8_decode bs)
      else if 192 \<le> b0 \<and> b0 < 224 then
        (case bs of
           b1 # r \<Rightarrow>
             (let c = (b0 - 192) * 64 + (b1 - 128)
              in if is_cont b1 \<and> 128 \<le> c then map_option ((#) c) (utf8_decode r) else None)
         | _ \<Rightarrow> None)
      else if 224 \<le> b0 \<and> b0 < 240 then
        (case bs of
           b1 # b2 # r \<Rightarrow>
             (let c = (b0 - 224) * 4096 + (b1 - 128) * 64 + (b2 - 128)
              in if is_cont b1 \<and> is_cont b2 \<and> 2048 \<le> c \<and> \<not> (55296 \<le> c \<and> c < 57344)
                 then map_option ((#) c) (utf8_decode r) else None)
         | _ \<Rightarrow> None)
      else if 240 \<le> b0 \<and> b0 < 248 then
        (case bs of
           b1 # b2 # b3 # r \<Rightarrow>
             (let c = (b0 - 240) * 262144 + (b1 - 128) * 4096 + (b2 - 128) * 64 + (b3 - 128)
              in if is_cont b1 \<and> is_cont b2 \<and> is_cont b3 \<and> 65536 \<le> c \<and> c < 1114112
                 then map_option ((#) c) (utf8_decode r) else None)
         | _ \<Rightarrow> None)
      else None)"

subsection \<open>The network and \<open>bin_list\<close>\<close>

datatype error =
    FetchError            \<comment> \<open>whatever \<open>urlopen\<close> or \<open>resp.read\<close> raises\<close>
  | UnicodeDecodeError    \<comment> \<open>raised by \<open>decode('utf-8')\<close>\<close>
  | IndexError            \<comment> \<open>raised by \<open>vers[0]\<close> on the empty list\<close>
  | NoVersionsFoundError  \<comment> \<open>the specification's empty-result error; the source neither
                              defines nor raises it\<close>

text \<open>
  \<open>urllib.request.urlopen\<close> and the network are not part of the program; the program
  makes the call of line 46 and reads the response. What the call does is given by the
  world at the time of the call:
  \<^item> \<open>respond w url\<close> is the outcome of \<open>urlopen(url)\<close> and \<open>resp.read()\<close>: the body, or a
    failure;
  \<^item> \<open>wire w url\<close> lists the HTTP requests that urllib sends for that one call: none when
    it rejects the URL before sending (a URL without a scheme), otherwise the request
    for the URL itself and one more for every redirect that it follows.

  The state keeps two logs: \<open>opened\<close>, the URLs that the program handed to \<open>urlopen\<close>,
  one entry for every call, and \<open>sent\<close>, the requests that went out.
\<close>

record world =
  respond :: "str \<Rightarrow> error + bytes"
  wire :: "str \<Rightarrow> str list"
  opened :: "str list"
  sent :: "str list"

definition urlopen :: "world \<Rightarrow> str \<Rightarrow> (error + bytes) \<times> world" where
  "urlopen w url =
     (respond w url, w\<lparr>opened := opened w @ [url], sent := sent w @ wire w url\<rparr>)"

definition artifact_urls :: "str \<Rightarrow> str \<Rightarrow> str list" where
  \<comment> \<open>lines 52 and 53: the two f-strings\<close>
  "artifact_urls url latest_ver =
     (let list_url = url @ ustr ''/'' @ latest_ver @ ustr ''/binaries''
      in [list_url @ ustr ''/apache-maven-'' @ latest_ver @ ustr ''-bin.tar.gz'',
          list_url @ ustr ''/apache-maven-'' @ latest_ver @ ustr ''-bin.zip''])"

definition resolve :: "ucd \<Rightarrow> str \<Rightarrow> str \<Rightarrow> error + str list" where
  \<comment> \<open>lines 48 to 53, from the decoded body on\<close>
  "resolve U url body =
     (let vers = extract_versions U body;
          vers = sort_reverse vers
      in case vers of
           [] \<Rightarrow> Inl IndexError
         | latest_ver # _ \<Rightarrow> Inr (artifact_urls url latest_ver))"

definition bin_list :: "ucd \<Rightarrow> world \<Rightarrow> str \<Rightarrow> (error + str list) \<times> world" where
  "bin_list U w url0 =
     (let url = strip 47 url0;
          (resp, w') = urlopen w url
      in case resp of
           Inl e \<Rightarrow> (Inl e, w')
         | Inr raw \<Rightarrow>
             (case utf8_decode raw of
                None \<Rightarrow> (Inl UnicodeDecodeError, w')
              | Some body \<Rightarrow> (resolve U url body, w')))"

definition serving :: "bytes \<Rightarrow> world" where
  \<comment> \<open>a network that answers every URL at once with the body \<open>raw\<close>; nothing opened so far\<close>
  "serving raw = \<lparr> respond = (\<lambda>_. Inr raw), wire = (\<lambda>u. [u]), opened = [], sent = [] \<rparr>"


subsection \<open>Specifications to compare the code with\<close>

text \<open>
  The pattern with \<open>\w\<close> in place of \<open>(\d|\w)\<close>: \<open>>(\d+((\.|-)\w+)+)\<close>.
\<close>

definition token_rx_simple :: rx where
  "token_rx_simple = Seq (Plus Digit) (Plus (Seq (Alt (Lit 46) (Lit 45)) (Plus Word)))"

definition version_rx_simple :: rx where
  "version_rx_simple = Seq (Lit 62) token_rx_simple"

text \<open>
  The first element of a list that a continuation accepts, with the continuation's answer:
  what a backtracking engine returns when \<open>k\<close> stands for the rest of the pattern.
\<close>

fun first_ok :: "('a \<Rightarrow> 'b option) \<Rightarrow> 'a list \<Rightarrow> 'b option" where
  "first_ok k [] = None"
| "first_ok k (x # xs) = (case k x of None \<Rightarrow> first_ok k xs | Some y \<Rightarrow> Some y)"

text \<open>
  The language of a pattern, without any order of preference: \<open>matches U r t\<close> holds when
  the text \<open>t\<close> as a whole is matched by \<open>r\<close>.
\<close>

inductive matches :: "ucd \<Rightarrow> rx \<Rightarrow> str \<Rightarrow> bool" for U :: ucd where
  m_lit: "matches U (Lit c) [c]"
| m_digit: "is_digit U c \<Longrightarrow> matches U Digit [c]"
| m_word: "is_word U c \<Longrightarrow> matches U Word [c]"
| m_seq: "matches U a x \<Longrightarrow> matches U b y \<Longrightarrow> matches U (Seq a b) (x @ y)"
| m_alt_l: "matches U a x \<Longrightarrow> matches U (Alt a b) x"
| m_alt_r: "matches U b x \<Longrightarrow> matches U (Alt a b) x"
| m_plus_one: "matches U a x \<Longrightarrow> matches U (Plus a) x"
| m_plus_more: "matches U a x \<Longrightarrow> matches U (Plus a) y \<Longrightarrow> matches U (Plus a) (x @ y)"

text \<open>
  Scanning as the specification words it: the tokens are matches of the token pattern
  that stand right behind a \<open>>\<close>, taken from left to right without overlap. No occurrence
  of \<open>>\<close> followed by a match is passed over before the next token starts, and where
  several matches start behind the same \<open>>\<close> the token is the longest one, the
  repetitions of the pattern being greedy.
\<close>

inductive scan_spec :: "ucd \<Rightarrow> str \<Rightarrow> str list \<Rightarrow> bool" for U :: ucd where
  scan_none:
    "\<forall>pre t post. body = pre @ 62 # t @ post \<longrightarrow> \<not> matches U token_rx t
     \<Longrightarrow> scan_spec U body []"
| scan_hit:
    "body = pre @ 62 # t @ post \<Longrightarrow> matches U token_rx t
     \<Longrightarrow> \<forall>pre' t' post'. body = pre' @ 62 # t' @ post' \<and> matches U token_rx t'
           \<longrightarrow> length pre \<le> length pre'
     \<Longrightarrow> \<forall>t' post'. t @ post = t' @ post' \<and> matches U token_rx t' \<longrightarrow> length t' \<le> length t
     \<Longrightarrow> scan_spec U post toks
     \<Longrightarrow> scan_spec U body (t # toks)"

text \<open>
  Valid UTF-8, as the Unicode standard defines it: a byte sequence is valid when it is the
  encoding of a sequence of scalar values (code points up to \<open>0x10FFFF\<close> that are not
  surrogates), each encoded in the shortest form.
\<close>

definition is_scalar :: "nat \<Rightarrow> bool" where
  "is_scalar c = (c < 55296 \<or> (57344 \<le> c \<and> c < 1114112))"

definition utf8_encode_cp :: "nat \<Rightarrow> bytes" where
  "utf8_encode_cp c =
     (if c < 128 then [c]
      else if c < 2048 then [192 + c div 64, 128 + c mod 64]
      else if c < 65536 then [224 + c div 4096, 128 + c div 64 mod 64, 128 + c mod 64]
      else [240 + c div 262144, 128 + c div 4096 mod 64, 128 + c div 64 mod 64, 128 + c mod 64])"

definition utf8_encode :: "str \<Rightarrow> bytes" where
  "utf8_encode cps = concat (map utf8_encode_cp cps)"

definition valid_utf8 :: "bytes \<Rightarrow> bool" where
  "valid_utf8 bs = (\<exists>cps. list_all is_scalar cps \<and> utf8_encode cps = bs)"

section \<open>Properties\<close>

subsection \<open>Stripping and sorting\<close>

lemma strip_append_replicate: "strip c (s @ replicate n c) = strip c s"
proof (cases "\<forall>x\<in>set s. x = c")
  case True
  then have "\<forall>x\<in>set (s @ replicate n c). x = c" by auto
  then have a: "dropWhile (\<lambda>x. x = c) (s @ replicate n c) = []"
    by (simp only: dropWhile_eq_Nil_conv)
  from True have b: "dropWhile (\<lambda>x. x = c) s = []"
    by (simp only: dropWhile_eq_Nil_conv)
  show ?thesis unfolding strip_def a b ..
next
  case False
  then have "dropWhile (\<lambda>x. x = c) (s @ replicate n c) = dropWhile (\<lambda>x. x = c) s @ replicate n c"
    by (auto simp: dropWhile_append)
  moreover have "dropWhile (\<lambda>x. x = c) (replicate n c @ rev (dropWhile (\<lambda>x. x = c) s)) =
      dropWhile (\<lambda>x. x = c) (rev (dropWhile (\<lambda>x. x = c) s))"
    by (rule dropWhile_append2) simp
  ultimately show ?thesis by (simp add: strip_def)
qed

lemma strip_replicate_append: "strip c (replicate n c @ s) = strip c s"
proof -
  have "dropWhile (\<lambda>x. x = c) (replicate n c @ s) = dropWhile (\<lambda>x. x = c) s"
    by (rule dropWhile_append2) simp
  then show ?thesis by (simp add: strip_def)
qed

lemma strip_ends: "strip c s = [] \<or> (hd (strip c s) \<noteq> c \<and> last (strip c s) \<noteq> c)"
proof -
  define t where "t = dropWhile (\<lambda>x. x = c) s"
  define u where "u = dropWhile (\<lambda>x. x = c) (rev t)"
  have s: "strip c s = rev u" by (simp add: strip_def t_def u_def)
  show ?thesis
  proof (cases "u = []")
    case True then show ?thesis by (simp add: s)
  next
    case False
    then have l: "hd u \<noteq> c" unfolding u_def using hd_dropWhile[of "\<lambda>x. x = c" "rev t"] by blast
    from False have tn: "t \<noteq> []" by (auto simp: u_def)
    then have ht: "hd t \<noteq> c" unfolding t_def using hd_dropWhile[of "\<lambda>x. x = c" s] by blast
    have "rev t = takeWhile (\<lambda>x. x = c) (rev t) @ u" by (simp add: u_def)
    then have "t = rev u @ rev (takeWhile (\<lambda>x. x = c) (rev t))"
      by (metis rev_append rev_rev_ident)
    with False have "hd t = hd (rev u)" by (metis hd_append2 rev_is_Nil_conv)
    with ht l False show ?thesis by (simp add: s last_rev)
  qed
qed

lemma sort_reverse_set: "set (sort_reverse xs) = set xs"
  by (simp add: sort_reverse_def)

lemma sort_reverse_Nil: "sort_reverse xs = [] \<longleftrightarrow> xs = []"
proof -
  have "length (sort_reverse xs) = length xs" by (simp add: sort_reverse_def)
  then show ?thesis by (metis length_0_conv)
qed

lemma sort_reverse_hd:
  assumes "sort_reverse xs = v # vs"
  shows "v \<in> set xs \<and> (\<forall>t\<in>set xs. t \<le> v)"
proof -
  have "v \<in> set (sort_reverse xs)" using assms by simp
  then have m: "v \<in> set xs" by (simp add: sort_reverse_set)
  have "sort (rev xs) = rev (v # vs)" using assms by (simp add: sort_reverse_def rev_swap)
  then have "sorted (rev vs @ [v])" by (metis rev.simps(2) sorted_sort)
  then have "\<forall>t\<in>set vs. t \<le> v" by (simp add: sorted_append)
  then have "\<forall>t\<in>set (v # vs). t \<le> v" by simp
  then have "\<forall>t\<in>set (sort_reverse xs). t \<le> v" using assms by simp
  with m show ?thesis by (simp add: sort_reverse_set)
qed

lemma sort_reverse_Max:
  assumes "xs \<noteq> []"
  shows "\<exists>vs. sort_reverse xs = Max (set xs) # vs"
proof -
  obtain v vs where e: "sort_reverse xs = v # vs"
    using assms sort_reverse_Nil[of xs] by (cases "sort_reverse xs") auto
  from sort_reverse_hd[OF e] have "Max (set xs) = v"
    by (intro Max_eqI) auto
  with e show ?thesis by blast
qed

lemma bin_list_opened: "opened (snd (bin_list U w url)) = opened w @ [strip 47 url]"
  by (simp add: bin_list_def urlopen_def Let_def split: sum.splits option.splits)




lemma bin_list_fst:
  "fst (bin_list U w url) =
     (case respond w (strip 47 url) of
        Inl e \<Rightarrow> Inl e
      | Inr raw \<Rightarrow> (case utf8_decode raw of None \<Rightarrow> Inl UnicodeDecodeError
                    | Some body \<Rightarrow> resolve U (strip 47 url) body))"
  by (simp add: bin_list_def urlopen_def Let_def split: sum.splits option.splits)

lemma resolve_Nil: "extract_versions U body = [] \<Longrightarrow> resolve U url body = Inl IndexError"
  by (simp add: resolve_def sort_reverse_def Let_def)

lemma resolve_Max:
  "extract_versions U body \<noteq> [] \<Longrightarrow>
     resolve U url body = Inr (artifact_urls url (Max (set (extract_versions U body))))"
  using sort_reverse_Max[of "extract_versions U body"] by (auto simp: resolve_def Let_def)

subsection \<open>Concrete listings\<close>

lemma utf8_decode_ascii: "\<forall>b\<in>set bs. b < 128 \<Longrightarrow> utf8_decode bs = Some bs"
  by (induction bs) auto

lemma tokens_of_3_10_and_3_9: "extract_versions ascii_ucd (ustr ''>3.10.0 >3.9.0'') = [ustr ''3.10.0'', ustr ''3.9.0'']"
  by code_simp


lemma tokens_of_anchor: "extract_versions ascii_ucd (ustr ''<a href=\"3.8.5/\">3.8.5/</a>'') = [ustr ''3.8.5'']"
  by code_simp

text \<open>
  Claim C1. When the listing yields at least one token, the version put into the URLs is
  the greatest token in the lexicographic order on strings; for a listing that yields
  exactly \<open>3.10.0\<close> and \<open>3.9.0\<close> that version is \<open>3.9.0\<close>.
\<close>
theorem latest_is_lexicographic_max:
  assumes "respond w (strip 47 url) = Inr raw"
    and "utf8_decode raw = Some body"
    and "extract_versions U body \<noteq> []"
  shows "fst (bin_list U w url) =
           Inr (artifact_urls (strip 47 url) (Max (set (extract_versions U body))))
       \<and> (set (extract_versions U body) = {ustr ''3.10.0'', ustr ''3.9.0''}
            \<longrightarrow> Max (set (extract_versions U body)) = ustr ''3.9.0'')"
proof -
  have "Max {ustr ''3.10.0'', ustr ''3.9.0''} = ustr ''3.9.0''"
    by (simp add: ustr_def max_def)
  then show ?thesis
    using assms by (simp add: bin_list_fst resolve_Max)
qed


lemma ascii_url: "strip 47 (ustr ''https://archive.apache.org/dist/maven/maven-3/'') = ustr ''https://archive.apache.org/dist/maven/maven-3''"
  by (simp add: strip_def ustr_def)

lemma serving_respond: "respond (serving raw) u = Inr raw"
  by (simp add: serving_def)

theorem latest_is_lexicographic_max_witness:
  "extract_versions ascii_ucd (ustr ''>3.10.0 >3.9.0'') = [ustr ''3.10.0'', ustr ''3.9.0'']
   \<and> fst (bin_list ascii_ucd (serving (ustr ''>3.10.0 >3.9.0''))
             (ustr ''https://archive.apache.org/dist/maven/maven-3/'')) =
       Inr [ustr ''https://archive.apache.org/dist/maven/maven-3/3.9.0/binaries/apache-maven-3.9.0-bin.tar.gz'',
            ustr ''https://archive.apache.org/dist/maven/maven-3/3.9.0/binaries/apache-maven-3.9.0-bin.zip'']"
proof -
  let ?raw = "ustr ''>3.10.0 >3.9.0''"
  have d: "utf8_decode ?raw = Some ?raw"
    by (rule utf8_decode_ascii) (simp add: ustr_def)
  have n: "extract_versions ascii_ucd ?raw \<noteq> []" by (simp add: tokens_of_3_10_and_3_9)
  have s: "set (extract_versions ascii_ucd ?raw) = {ustr ''3.10.0'', ustr ''3.9.0''}"
    by (simp add: tokens_of_3_10_and_3_9)
  from latest_is_lexicographic_max [OF serving_respond d n,
      of "ustr ''https://archive.apache.org/dist/maven/maven-3/''"] s
  have "fst (bin_list ascii_ucd (serving ?raw) (ustr ''https://archive.apache.org/dist/maven/maven-3/'')) =
      Inr (artifact_urls (ustr ''https://archive.apache.org/dist/maven/maven-3'') (ustr ''3.9.0''))"
    by (simp only: ascii_url)
  with tokens_of_3_10_and_3_9 show ?thesis by (simp add: artifact_urls_def ustr_def)
qed



lemma success_shape_aux:
  assumes "fst (bin_list U w url) = Inr urls"
  shows "\<exists>raw body.
           respond w (strip 47 url) = Inr raw \<and> utf8_decode raw = Some body
         \<and> extract_versions U body \<noteq> []
         \<and> urls = artifact_urls (strip 47 url) (Max (set (extract_versions U body)))"
proof -
  from assms obtain raw where r: "respond w (strip 47 url) = Inr raw"
    by (auto simp: bin_list_fst split: sum.splits)
  with assms obtain body where b: "utf8_decode raw = Some body"
    by (auto simp: bin_list_fst split: option.splits)
  from assms r b have res: "resolve U (strip 47 url) body = Inr urls"
    by (simp add: bin_list_fst)
  then have n: "extract_versions U body \<noteq> []"
    by (auto simp: resolve_Nil)
  with res have "urls = artifact_urls (strip 47 url) (Max (set (extract_versions U body)))"
    by (simp add: resolve_Max)
  with r b n show ?thesis by blast
qed

text \<open>
  Claim C4. A successful call returns exactly two URLs, the \<open>tar.gz\<close> one first and the
  \<open>zip\<close> one second. Both are the stripped base URL, a slash, a version \<open>v\<close> extracted from
  the listing, \<open>/binaries/apache-maven-\<close>, the same \<open>v\<close> again, and then \<open>-bin.tar.gz\<close> or
  \<open>-bin.zip\<close>: they differ in that suffix only.
\<close>
theorem success_returns_tar_gz_then_zip:
  assumes "fst (bin_list U w url) = Inr urls"
  shows "\<exists>raw body v.
           respond w (strip 47 url) = Inr raw \<and> utf8_decode raw = Some body
         \<and> v \<in> set (extract_versions U body)
         \<and> urls = [strip 47 url @ ustr ''/'' @ v @ ustr ''/binaries/apache-maven-'' @ v @ ustr ''-bin.tar.gz'',
                    strip 47 url @ ustr ''/'' @ v @ ustr ''/binaries/apache-maven-'' @ v @ ustr ''-bin.zip'']
         \<and> length urls = 2"
proof -
  from success_shape_aux [OF assms] obtain raw body where
    r: "respond w (strip 47 url) = Inr raw" and b: "utf8_decode raw = Some body"
    and n: "extract_versions U body \<noteq> []"
    and u: "urls = artifact_urls (strip 47 url) (Max (set (extract_versions U body)))"
    by blast
  let ?v = "Max (set (extract_versions U body))"
  from n have "?v \<in> set (extract_versions U body)" by (intro Max_in) auto
  with r b u show ?thesis
    by (auto simp: artifact_urls_def ustr_def)
qed


theorem success_returns_tar_gz_then_zip_witness:
  "fst (bin_list ascii_ucd (serving (ustr ''<a href=\"3.8.5/\">3.8.5/</a>'')) (ustr ''http://h/m/'')) =
     Inr [ustr ''http://h/m/3.8.5/binaries/apache-maven-3.8.5-bin.tar.gz'',
          ustr ''http://h/m/3.8.5/binaries/apache-maven-3.8.5-bin.zip'']
   \<and> (\<exists>raw body v.
           respond (serving (ustr ''<a href=\"3.8.5/\">3.8.5/</a>'')) (strip 47 (ustr ''http://h/m/'')) = Inr raw
         \<and> utf8_decode raw = Some body
         \<and> v \<in> set (extract_versions ascii_ucd body)
         \<and> [ustr ''http://h/m/3.8.5/binaries/apache-maven-3.8.5-bin.tar.gz'',
             ustr ''http://h/m/3.8.5/binaries/apache-maven-3.8.5-bin.zip''] =
            [strip 47 (ustr ''http://h/m/'') @ ustr ''/'' @ v @ ustr ''/binaries/apache-maven-'' @ v @ ustr ''-bin.tar.gz'',
             strip 47 (ustr ''http://h/m/'') @ ustr ''/'' @ v @ ustr ''/binaries/apache-maven-'' @ v @ ustr ''-bin.zip'']
         \<and> length [ustr ''http://h/m/3.8.5/binaries/apache-maven-3.8.5-bin.tar.gz'',
                   ustr ''http://h/m/3.8.5/binaries/apache-maven-3.8.5-bin.zip''] = 2)"
proof -
  let ?raw = "ustr ''<a href=\"3.8.5/\">3.8.5/</a>''"
  have d: "utf8_decode ?raw = Some ?raw"
    by (rule utf8_decode_ascii) (simp add: ustr_def)
  have u: "strip 47 (ustr ''http://h/m/'') = ustr ''http://h/m''"
    by (simp add: strip_def ustr_def)
  have "resolve ascii_ucd (ustr ''http://h/m'') ?raw = Inr (artifact_urls (ustr ''http://h/m'') (ustr ''3.8.5''))"
    by (simp add: resolve_def tokens_of_anchor sort_reverse_def)
  then have r: "fst (bin_list ascii_ucd (serving ?raw) (ustr ''http://h/m/'')) =
     Inr [ustr ''http://h/m/3.8.5/binaries/apache-maven-3.8.5-bin.tar.gz'',
          ustr ''http://h/m/3.8.5/binaries/apache-maven-3.8.5-bin.zip'']"
    by (simp add: bin_list_fst serving_respond d u) (simp add: artifact_urls_def ustr_def)
  from success_returns_tar_gz_then_zip [OF r] r show ?thesis by blast
qed

text \<open>
  Claim C5, as stated, asks for a \<open>NoVersionsFoundError\<close> when no token matches. Line 51
  indexes the list without a guard, and what is raised on the empty list is Python's
  \<open>IndexError\<close>: on the listing \<open><hr></pre>\<close>, which holds no token, the call fails with
  \<open>IndexError\<close> and not with \<open>NoVersionsFoundError\<close>.
\<close>

theorem empty_listing_raises_counterexample:
  "extract_versions ascii_ucd (ustr ''<hr></pre>'') = []
   \<and> fst (bin_list ascii_ucd (serving (ustr ''<hr></pre>'')) (ustr ''http://h/m/'')) = Inl IndexError
   \<and> fst (bin_list ascii_ucd (serving (ustr ''<hr></pre>'')) (ustr ''http://h/m/''))
         \<noteq> Inl NoVersionsFoundError"
proof -
  let ?raw = "ustr ''<hr></pre>''"
  have d: "utf8_decode ?raw = Some ?raw"
    by (rule utf8_decode_ascii) (simp add: ustr_def)
  have e: "extract_versions ascii_ucd ?raw = []" by code_simp
  have "fst (bin_list ascii_ucd (serving ?raw) (ustr ''http://h/m/'')) = Inl IndexError"
    by (simp add: bin_list_fst serving_def d resolve_Nil [OF e])
  with e show ?thesis by simp
qed

text \<open>
  Claim C5, amended. When no token matches in the body, \<open>vers[0]\<close> raises \<open>IndexError\<close>, the
  error of indexing the empty list, and no URL is returned; and every call either fails
  with an error or returns two URLs.
\<close>

theorem empty_listing_raises:
  "(respond w (strip 47 url) = Inr raw \<and> utf8_decode raw = Some body
      \<and> extract_versions U body = [] \<longrightarrow> fst (bin_list U w url) = Inl IndexError)
   \<and> ((\<exists>e. fst (bin_list U w url) = Inl e) \<or> (\<exists>a b. fst (bin_list U w url) = Inr [a, b]))"
proof (intro conjI impI)
  assume "respond w (strip 47 url) = Inr raw \<and> utf8_decode raw = Some body
      \<and> extract_versions U body = []"
  then show "fst (bin_list U w url) = Inl IndexError"
    by (simp add: bin_list_fst resolve_Nil)
next
  show "(\<exists>e. fst (bin_list U w url) = Inl e) \<or> (\<exists>a b. fst (bin_list U w url) = Inr [a, b])"
  proof (cases "fst (bin_list U w url)")
    case (Inl e)
    then show ?thesis by simp
  next
    case (Inr urls)
    from success_shape_aux [OF Inr] Inr show ?thesis by (auto simp: artifact_urls_def Let_def)
  qed
qed


theorem empty_listing_raises_witness:
  "respond (serving (ustr ''<hr></pre>'')) (strip 47 (ustr ''http://h/m/'')) = Inr (ustr ''<hr></pre>'')
   \<and> utf8_decode (ustr ''<hr></pre>'') = Some (ustr ''<hr></pre>'')
   \<and> extract_versions ascii_ucd (ustr ''<hr></pre>'') = []
   \<and> fst (bin_list ascii_ucd (serving (ustr ''<hr></pre>'')) (ustr ''http://h/m/'')) = Inl IndexError"
proof -
  let ?raw = "ustr ''<hr></pre>''"
  have d: "utf8_decode ?raw = Some ?raw"
    by (rule utf8_decode_ascii) (simp add: ustr_def)
  have e: "extract_versions ascii_ucd ?raw = []" by code_simp
  from empty_listing_raises [of "serving ?raw" "ustr ''http://h/m/''" ?raw ?raw ascii_ucd] d e
  show ?thesis by (simp add: serving_respond)
qed

text \<open>
  Claim C6. Against the same network, a base URL followed by any number of slashes gives
  the same result (and the same call of \<open>urlopen\<close>) as the base URL itself.
\<close>
theorem trailing_slashes_ignored:
  "bin_list U w (u @ replicate n 47) = bin_list U w u"
  by (simp add: bin_list_def strip_append_replicate)

theorem trailing_slashes_ignored_witness:
  "bin_list ascii_ucd (serving (ustr ''>3.9.0'')) (ustr ''http://h/m//'') =
   bin_list ascii_ucd (serving (ustr ''>3.9.0'')) (ustr ''http://h/m'')"
  using trailing_slashes_ignored [of ascii_ucd "serving (ustr ''>3.9.0'')" "ustr ''http://h/m''" "Suc (Suc 0)"]
  by (simp add: ustr_def)




text \<open>
  Claim C9. Slashes at the front of the base URL are stripped as well: the call behaves
  as without them, the URL handed to \<open>urlopen\<close> is the stripped one, which does not begin
  with a slash, and every returned URL begins with the stripped one.
\<close>
theorem leading_slashes_stripped_too:
  "bin_list U w (replicate n 47 @ u) = bin_list U w u
   \<and> opened (snd (bin_list U w (replicate n 47 @ u))) = opened w @ [strip 47 u]
   \<and> (strip 47 u = [] \<or> hd (strip 47 u) \<noteq> 47)
   \<and> (\<forall>urls. fst (bin_list U w (replicate n 47 @ u)) = Inr urls \<longrightarrow>
         (\<forall>x\<in>set urls. take (length (strip 47 u)) x = strip 47 u))"
proof (intro conjI allI impI)
  show e: "bin_list U w (replicate n 47 @ u) = bin_list U w u"
    by (simp add: bin_list_def strip_replicate_append)
  show "opened (snd (bin_list U w (replicate n 47 @ u))) = opened w @ [strip 47 u]"
    by (simp add: e bin_list_opened)
  show "strip 47 u = [] \<or> hd (strip 47 u) \<noteq> 47"
    using strip_ends [of 47 u] by blast
  fix urls assume "fst (bin_list U w (replicate n 47 @ u)) = Inr urls"
  then have "fst (bin_list U w u) = Inr urls" by (simp add: e)
  from success_shape_aux [OF this]
  show "\<forall>x\<in>set urls. take (length (strip 47 u)) x = strip 47 u"
    by (auto simp: artifact_urls_def Let_def)
qed

theorem leading_slashes_stripped_too_witness:
  "bin_list ascii_ucd (serving (ustr ''>3.9.0'')) (ustr ''//http://h/m'') =
     bin_list ascii_ucd (serving (ustr ''>3.9.0'')) (ustr ''http://h/m'')
   \<and> opened (snd (bin_list ascii_ucd (serving (ustr ''>3.9.0'')) (ustr ''//http://h/m''))) =
       [ustr ''http://h/m'']
   \<and> fst (bin_list ascii_ucd (serving (ustr ''>3.9.0'')) (ustr ''//http://h/m'')) =
       Inr [ustr ''http://h/m/3.9.0/binaries/apache-maven-3.9.0-bin.tar.gz'',
            ustr ''http://h/m/3.9.0/binaries/apache-maven-3.9.0-bin.zip'']"
proof -
  have u: "strip 47 (ustr ''http://h/m'') = ustr ''http://h/m''"
    by (simp add: strip_def ustr_def)
  have d: "utf8_decode (ustr ''>3.9.0'') = Some (ustr ''>3.9.0'')"
    by (rule utf8_decode_ascii) (simp add: ustr_def)
  have x: "extract_versions ascii_ucd (ustr ''>3.9.0'') = [ustr ''3.9.0'']" by code_simp
  have r: "fst (bin_list ascii_ucd (serving (ustr ''>3.9.0'')) (ustr ''http://h/m'')) =
       Inr [ustr ''http://h/m/3.9.0/binaries/apache-maven-3.9.0-bin.tar.gz'',
            ustr ''http://h/m/3.9.0/binaries/apache-maven-3.9.0-bin.zip'']"
    by (simp add: bin_list_fst serving_respond d u resolve_def x sort_reverse_def)
       (simp add: artifact_urls_def ustr_def)
  have s: "ustr ''//http://h/m'' = replicate (Suc (Suc 0)) 47 @ ustr ''http://h/m''"
    by (simp add: ustr_def)
  let ?w = "serving (ustr ''>3.9.0'')"
  from leading_slashes_stripped_too [of ascii_ucd ?w "Suc (Suc 0)" "ustr ''http://h/m''"]
  have e: "bin_list ascii_ucd ?w (ustr ''//http://h/m'') = bin_list ascii_ucd ?w (ustr ''http://h/m'')"
    and q: "opened (snd (bin_list ascii_ucd ?w (ustr ''//http://h/m''))) =
              opened ?w @ [ustr ''http://h/m'']"
    unfolding s u by blast+
  from q have "opened (snd (bin_list ascii_ucd ?w (ustr ''//http://h/m''))) = [ustr ''http://h/m'']"
    by (simp add: serving_def)
  with e r show ?thesis by simp
qed

subsection \<open>The two patterns extract the same tokens\<close>

lemma first_ok_append:
  "first_ok k (xs @ ys) = (case first_ok k xs of None \<Rightarrow> first_ok k ys | Some y \<Rightarrow> Some y)"
  by (induction xs) (auto split: option.splits)

lemma first_ok_concat_map:
  "first_ok k (concat (map f xs)) = first_ok (\<lambda>x. first_ok k (f x)) xs"
  by (induction xs) (auto simp: first_ok_append split: option.splits)

lemma match_at_first_ok: "match_at U r s = first_ok Some (rx_match U r s)"
  by (cases "rx_match U r s") (auto simp: match_at_def)

lemma seq_first_ok:
  fixes k :: "str \<Rightarrow> str option"
  assumes a: "\<And>s (k :: str \<Rightarrow> str option). first_ok k (rx_match U a s) = first_ok k (rx_match U a' s)"
    and b: "\<And>s (k :: str \<Rightarrow> str option). first_ok k (rx_match U b s) = first_ok k (rx_match U b' s)"
  shows "first_ok k (rx_match U (Seq a b) s) = first_ok k (rx_match U (Seq a' b') s)"
  by (simp add: first_ok_concat_map a b)

lemma plus_first_ok:
  fixes k :: "str \<Rightarrow> str option"
  assumes a: "\<And>s (k :: str \<Rightarrow> str option). first_ok k (rx_match U a s) = first_ok k (rx_match U a' s)"
  shows "first_ok k (rx_match U (Plus a) s) = first_ok k (rx_match U (Plus a') s)"
proof (induction s arbitrary: k rule: length_induct)
  case (1 s)
  let ?g = "\<lambda>r s'. (if length s' < length s then rx_match U (Plus r) s' else []) @ [s']"
  have "first_ok k (?g a s') = first_ok k (?g a' s')" for s'
    using 1 by (simp add: first_ok_append)
  then have "first_ok (\<lambda>s'. first_ok k (?g a s')) (rx_match U a s)
           = first_ok (\<lambda>s'. first_ok k (?g a' s')) (rx_match U a s)"
    by simp
  also have "\<dots> = first_ok (\<lambda>s'. first_ok k (?g a' s')) (rx_match U a' s)"
    by (rule a)
  finally show ?case by (simp add: first_ok_concat_map rx_match.simps(6)[of U _ s])
qed

lemma digit_or_word_first_ok:
  "first_ok k (rx_match U (Alt Digit Word) s) = first_ok k (rx_match U Word s)"
  by (cases s) (auto simp: sym_def is_digit_def is_word_def isalnum_def split: option.splits)

lemma version_rx_first_ok:
  fixes k :: "str \<Rightarrow> str option"
  shows "first_ok k (rx_match U version_rx s) = first_ok k (rx_match U version_rx_simple s)"
  unfolding version_rx_def version_rx_simple_def token_rx_def token_rx_simple_def
  by (intro seq_first_ok plus_first_ok digit_or_word_first_ok refl)

lemma finditer_cong:
  assumes "\<And>s. match_at U r s = match_at U r' s"
  shows "finditer U r s = finditer U r' s"
proof (induction s rule: length_induct)
  case (1 s)
  show ?case
  proof (cases "match_at U r' s")
    case None
    then show ?thesis
      using 1 assms by (subst finditer.simps, subst (2) finditer.simps) (simp split: list.splits)
  next
    case (Some rest)
    then show ?thesis
      using 1 assms by (subst finditer.simps, subst (2) finditer.simps) (simp split: list.splits)
  qed
qed

text \<open>
  Claim C10. The pattern \<open>\d+((\.|-)(\d|\w)+)+\<close> and the simpler \<open>\d+((\.|-)\w+)+\<close> yield the
  same list of captured tokens on every body, every digit being a word character.
\<close>

theorem simple_pattern_same_tokens:
  "map group1 (finditer U version_rx_simple body) = extract_versions U body"
  unfolding extract_versions_def
  using finditer_cong [of U version_rx version_rx_simple body]
  by (simp add: match_at_first_ok version_rx_first_ok)

subsection \<open>The matcher against the language of the pattern\<close>

lemma sym_sound: "rest \<in> set (sym p s) \<Longrightarrow> \<exists>c. s = c # rest \<and> p c"
  by (cases s) (auto simp: sym_def split: if_splits)

lemma rx_match_sound:
  "rest \<in> set (rx_match U r s) \<Longrightarrow> \<exists>t. s = t @ rest \<and> matches U r t"
proof (induction U r s arbitrary: rest rule: rx_match.induct)
  case (1 U c s)
  then show ?case by (auto dest!: sym_sound intro: matches.intros)
next
  case (2 U s)
  then show ?case by (auto dest!: sym_sound intro: matches.intros)
next
  case (3 U s)
  then show ?case by (auto dest!: sym_sound intro: matches.intros)
next
  case (4 U a b s)
  from 4(3) obtain s' where s': "s' \<in> set (rx_match U a s)" and r: "rest \<in> set (rx_match U b s')"
    by auto
  from 4(1)[OF s'] obtain t1 where t1: "s = t1 @ s'" "matches U a t1" by blast
  from 4(2)[OF s' r] obtain t2 where t2: "s' = t2 @ rest" "matches U b t2" by blast
  from t1 t2 have "s = (t1 @ t2) @ rest" "matches U (Seq a b) (t1 @ t2)"
    by (auto intro: matches.intros)
  then show ?case by blast
next
  case (5 U a b s)
  from 5(3) have "rest \<in> set (rx_match U a s) \<or> rest \<in> set (rx_match U b s)" by simp
  then show ?case
  proof
    assume "rest \<in> set (rx_match U a s)"
    from 5(1)[OF this] show ?thesis by (blast intro: matches.intros)
  next
    assume "rest \<in> set (rx_match U b s)"
    from 5(2)[OF this] show ?thesis by (blast intro: matches.intros)
  qed
next
  case (6 U a s)
  from 6(3) obtain s' where s': "s' \<in> set (rx_match U a s)"
    and r: "(length s' < length s \<and> rest \<in> set (rx_match U (Plus a) s')) \<or> rest = s'"
    by (subst (asm) rx_match.simps(6)) (auto split: if_splits)
  from 6(1)[OF s'] obtain t1 where t1: "s = t1 @ s'" "matches U a t1" by blast
  from r show ?case
  proof
    assume "rest = s'"
    with t1 show ?thesis by (auto intro: matches.intros)
  next
    assume a: "length s' < length s \<and> rest \<in> set (rx_match U (Plus a) s')"
    with 6(2)[OF s'] obtain t2 where t2: "s' = t2 @ rest" "matches U (Plus a) t2" by blast
    from t1 t2 have "s = (t1 @ t2) @ rest" "matches U (Plus a) (t1 @ t2)"
      by (auto intro: matches.intros)
    then show ?thesis by blast
  qed
qed

lemma rx_match_complete:
  "matches U r t \<Longrightarrow> rest \<in> set (rx_match U r (t @ rest))"
proof (induction arbitrary: rest rule: matches.induct)
  case (m_seq a x b y)
  have "x @ y @ rest = x @ (y @ rest)" by simp
  with m_seq.IH(1)[of "y @ rest"] m_seq.IH(2)[of rest] show ?case by auto
next
  case (m_plus_one a x)
  from m_plus_one.IH[of rest] show ?case by (subst rx_match.simps(6)) auto
next
  case (m_plus_more a x y)
  show ?case
  proof (cases "x = []")
    case True
    with m_plus_more.IH(2)[of rest] show ?thesis by simp
  next
    case False
    then have "length (y @ rest) < length ((x @ y) @ rest)" by simp
    with m_plus_more.IH(1)[of "y @ rest"] m_plus_more.IH(2)[of rest] show ?thesis
      by (subst rx_match.simps(6)) (simp, rule bexI [of _ "y @ rest"], simp_all)
  qed
qed (auto simp: sym_def)

inductive_cases matches_SeqE: "matches U (Seq a b) t"
inductive_cases matches_LitE: "matches U (Lit c) t"

lemma matches_version_rx:
  "matches U version_rx m \<longleftrightarrow> (\<exists>t. m = 62 # t \<and> matches U token_rx t)"
  unfolding version_rx_def
  by (auto elim!: matches_SeqE matches_LitE intro: m_seq [OF m_lit, simplified])

lemma match_at_Some:
  assumes "match_at U version_rx s = Some rest"
  shows "\<exists>t. s = 62 # t @ rest \<and> matches U token_rx t"
proof -
  from assms have "rest \<in> set (rx_match U version_rx s)"
    by (auto simp: match_at_def split: list.splits)
  from rx_match_sound [OF this] show ?thesis
    by (auto simp: matches_version_rx)
qed

lemma match_at_None:
  assumes "match_at U version_rx s = None"
  shows "\<not> (\<exists>t post. s = 62 # t @ post \<and> matches U token_rx t)"
proof
  assume "\<exists>t post. s = 62 # t @ post \<and> matches U token_rx t"
  then obtain t post where s: "s = (62 # t) @ post" and m: "matches U version_rx (62 # t)"
    by (auto simp: matches_version_rx)
  from rx_match_complete [OF m, of post] s have "rx_match U version_rx s \<noteq> []" by auto
  with assms show False by (auto simp: match_at_def split: list.splits)
qed

lemma version_rx_consumes:
  "match_at U version_rx s = Some rest \<Longrightarrow> length rest < length s"
  using match_at_Some [of U s rest] by auto

lemma finditer_occurs:
  "t \<in> set (map group1 (finditer U version_rx s)) \<Longrightarrow>
     \<exists>pre post. s = pre @ 62 # t @ post \<and> matches U token_rx t"
proof (induction s rule: length_induct)
  case (1 s)
  show ?case
  proof (cases "match_at U version_rx s")
    case None
    show ?thesis
    proof (cases s)
      case Nil
      with None 1(2) show ?thesis by (subst (asm) finditer.simps) simp
    next
      case (Cons c cs)
      with None 1(2) have "t \<in> set (map group1 (finditer U version_rx cs))"
        by (subst (asm) finditer.simps) simp
      with 1(1) Cons obtain pre post where "cs = pre @ 62 # t @ post" "matches U token_rx t"
        by auto
      with Cons have "s = (c # pre) @ 62 # t @ post \<and> matches U token_rx t" by simp
      then show ?thesis by blast
    qed
  next
    case (Some rest)
    from match_at_Some [OF Some] obtain t0 where s: "s = 62 # t0 @ rest"
      and m: "matches U token_rx t0" by blast
    then have l: "length rest < length s" by simp
    from s have "take (length s - length rest) s = 62 # t0" by simp
    with Some l 1(2) have "t = t0 \<or> t \<in> set (map group1 (finditer U version_rx rest))"
      by (subst (asm) finditer.simps) (auto simp: group1_def)
    then show ?thesis
    proof
      assume "t = t0"
      with s m have "s = [] @ 62 # t @ rest \<and> matches U token_rx t" by simp
      then show ?thesis by blast
    next
      assume "t \<in> set (map group1 (finditer U version_rx rest))"
      with 1(1) l obtain pre post where "rest = pre @ 62 # t @ post" "matches U token_rx t"
        by blast
      with s have "s = (62 # t0 @ pre) @ 62 # t @ post \<and> matches U token_rx t" by simp
      then show ?thesis by blast
    qed
  qed
qed

subsection \<open>The greedy match is the longest one\<close>

lemma rx_match_length: "x \<in> set (rx_match U r s) \<Longrightarrow> length x \<le> length s"
  using rx_match_sound [of x U r s] by auto

lemma plus_Nil: "rx_match U a s = [] \<Longrightarrow> rx_match U (Plus a) s = []"
  by (simp add: rx_match.simps(6))

lemma plus_class_elems:
  assumes A1: "\<And>s x. x \<in> set (rx_match U a s) \<Longrightarrow> \<exists>c. s = c # x \<and> p c"
  shows "x \<in> set (rx_match U (Plus a) s) \<Longrightarrow>
           \<exists>k. 1 \<le> k \<and> k \<le> length (takeWhile p s) \<and> x = drop k s"
proof (induction s arbitrary: x)
  case Nil
  have "rx_match U a [] = []" using A1 [of _ "[]"] by (cases "rx_match U a []") auto
  with Nil show ?case by (simp add: plus_Nil)
next
  case (Cons c cs)
  from Cons.prems obtain s' where s': "s' \<in> set (rx_match U a (c # cs))"
    and x: "x = s' \<or> x \<in> set (rx_match U (Plus a) s')"
    by (subst (asm) rx_match.simps(6)) (auto split: if_splits)
  from A1 [OF s'] have pc: "p c" and e: "s' = cs" by auto
  from x show ?case
  proof
    assume "x = s'"
    with e pc have "1 \<le> (1::nat) \<and> 1 \<le> length (takeWhile p (c # cs)) \<and> x = drop 1 (c # cs)"
      by simp
    then show ?thesis by blast
  next
    assume "x \<in> set (rx_match U (Plus a) s')"
    with e Cons.IH obtain k where "1 \<le> k" "k \<le> length (takeWhile p cs)" "x = drop k cs"
      by blast
    with pc have "1 \<le> Suc k \<and> Suc k \<le> length (takeWhile p (c # cs)) \<and> x = drop (Suc k) (c # cs)"
      by simp
    then show ?thesis by blast
  qed
qed

lemma plus_class_hd:
  assumes A1: "\<And>s x. x \<in> set (rx_match U a s) \<Longrightarrow> \<exists>c. s = c # x \<and> p c"
    and A2: "\<And>c cs. p c \<Longrightarrow> rx_match U a (c # cs) \<noteq> []"
  shows "s \<noteq> [] \<Longrightarrow> p (hd s) \<Longrightarrow>
           rx_match U (Plus a) s \<noteq> [] \<and> hd (rx_match U (Plus a) s) = dropWhile p s"
proof (induction s)
  case Nil
  then show ?case by simp
next
  case (Cons c cs)
  then have pc: "p c" by simp
  from A2 [OF pc] obtain y ys where ys: "rx_match U a (c # cs) = y # ys"
    by (cases "rx_match U a (c # cs)") auto
  then have "y \<in> set (rx_match U a (c # cs))" by simp
  from A1 [OF this] have y: "y = cs" by simp
  let ?blk = "rx_match U (Plus a) cs @ [cs]"
  have u: "rx_match U (Plus a) (c # cs) =
        ?blk @ concat (map (\<lambda>s'. (if length s' < length (c # cs) then rx_match U (Plus a) s' else []) @ [s']) ys)"
    by (subst rx_match.simps(6)) (simp add: ys y)
  have "hd ?blk = dropWhile p cs"
  proof (cases "cs \<noteq> [] \<and> p (hd cs)")
    case True
    with Cons.IH show ?thesis by simp
  next
    case False
    then have t: "takeWhile p cs = []" by (cases cs) auto
    have "rx_match U (Plus a) cs = []"
    proof (rule ccontr)
      assume "rx_match U (Plus a) cs \<noteq> []"
      then obtain x where "x \<in> set (rx_match U (Plus a) cs)"
        by (cases "rx_match U (Plus a) cs") auto
      from plus_class_elems [of U a p, OF A1 this] t show False by auto
    qed
    moreover from False have "dropWhile p cs = cs" by (cases cs) auto
    ultimately show ?thesis by simp
  qed
  moreover have "?blk \<noteq> []" by simp
  ultimately have "rx_match U (Plus a) (c # cs) \<noteq> [] \<and>
      hd (rx_match U (Plus a) (c # cs)) = dropWhile p cs"
    unfolding u by (simp only: hd_append2 append_is_Nil_conv simp_thms)
  with pc show ?case by simp
qed

lemma plus_class_length:
  assumes A1: "\<And>s x. x \<in> set (rx_match U a s) \<Longrightarrow> \<exists>c. s = c # x \<and> p c"
    and x: "x \<in> set (rx_match U (Plus a) s)"
  shows "length (dropWhile p s) \<le> length x"
proof -
  from plus_class_elems [of U a p, OF A1 x] obtain k where
    k: "k \<le> length (takeWhile p s)" "x = drop k s" by blast
  have "length (takeWhile p s) + length (dropWhile p s) = length s"
    by (metis length_append takeWhile_dropWhile_id)
  with k show ?thesis by simp
qed

lemma plus_class_other:
  assumes A1: "\<And>s x. x \<in> set (rx_match U a s) \<Longrightarrow> \<exists>c. s = c # x \<and> p c"
    and x: "x \<in> set (rx_match U (Plus a) s)" and ne: "x \<noteq> dropWhile p s"
  shows "x \<noteq> [] \<and> p (hd x)"
proof -
  from plus_class_elems [of U a p, OF A1 x] obtain k where
    k: "k \<le> length (takeWhile p s)" "x = drop k s" by blast
  have "k \<noteq> length (takeWhile p s)" using ne k(2) by (auto simp: dropWhile_eq_drop)
  with k(1) have lt: "k < length (takeWhile p s)" by simp
  have "length (takeWhile p s) \<le> length s" by (rule length_takeWhile_le)
  with lt have ks: "k < length s" by simp
  then have "x \<noteq> []" using k(2) by simp
  moreover have "hd x = s ! k" using ks k(2) by (simp add: hd_drop_conv_nth)
  moreover have "s ! k = takeWhile p s ! k" using lt by (simp add: takeWhile_nth)
  moreover have "takeWhile p s ! k \<in> set (takeWhile p s)" using lt by simp
  then have "p (takeWhile p s ! k)" by (rule set_takeWhileD [THEN conjunct2])
  ultimately show ?thesis by simp
qed

lemma digit_elem: "x \<in> set (rx_match U Digit s) \<Longrightarrow> \<exists>c. s = c # x \<and> is_digit U c"
  by (auto dest: sym_sound)

lemma digit_nonempty: "is_digit U c \<Longrightarrow> rx_match U Digit (c # cs) \<noteq> []"
  by (simp add: sym_def)

lemma digit_is_word: "is_digit U c \<Longrightarrow> is_word U c"
  by (simp add: is_digit_def is_word_def isalnum_def)

lemma chars_elem: "x \<in> set (rx_match U (Alt Digit Word) s) \<Longrightarrow> \<exists>c. s = c # x \<and> is_word U c"
  by (auto dest!: sym_sound simp: digit_is_word)

lemma chars_nonempty: "is_word U c \<Longrightarrow> rx_match U (Alt Digit Word) (c # cs) \<noteq> []"
  by (simp add: sym_def)

lemma group_Nil: "s = [] \<or> (hd s \<noteq> 46 \<and> hd s \<noteq> 45) \<Longrightarrow> rx_match U group_rx s = []"
  by (cases s) (auto simp: sym_def)

lemma group_Cons: "c = 46 \<or> c = 45 \<Longrightarrow> rx_match U group_rx (c # cs) = rx_match U chars_rx cs"
  by (auto simp: sym_def)

lemma class_run_start:
  assumes A1: "\<And>s x. x \<in> set (rx_match U a s) \<Longrightarrow> \<exists>c. s = c # x \<and> p c"
    and ne: "rx_match U (Plus a) s \<noteq> []"
  shows "s \<noteq> [] \<and> p (hd s)"
proof -
  from ne obtain x where "x \<in> set (rx_match U (Plus a) s)"
    by (cases "rx_match U (Plus a) s") auto
  from plus_class_elems [of U a p, OF A1 this] have "takeWhile p s \<noteq> []" by auto
  then show ?thesis by (cases s) (auto split: if_splits)
qed

lemma word_start_no_groups:
  assumes H: "\<not> is_word U 46" "\<not> is_word U 45" and y: "y \<noteq> []" "is_word U (hd y)"
  shows "rx_match U (Plus group_rx) y = []"
proof -
  from H y have "hd y \<noteq> 46 \<and> hd y \<noteq> 45" by auto
  then have "rx_match U group_rx y = []" by (intro group_Nil) simp
  then show ?thesis by (rule plus_Nil)
qed

lemma groups_best:
  assumes H: "\<not> is_word U 46" "\<not> is_word U 45"
  shows "\<forall>x\<in>set (rx_match U (Plus group_rx) s).
           length (hd (rx_match U (Plus group_rx) s)) \<le> length x"
proof (induction s rule: length_induct)
  case (1 s)
  let ?PG = "Plus group_rx"
  show ?case
  proof (cases "rx_match U group_rx s = []")
    case True
    then show ?thesis by (simp add: plus_Nil)
  next
    case False
    then obtain c cs where s: "s = c # cs" and c: "c = 46 \<or> c = 45"
      using group_Nil [of s U] by (cases s) auto
    define ys where "ys = rx_match U chars_rx cs"
    have g: "rx_match U group_rx s = ys" unfolding ys_def s using c by (rule group_Cons)
    have yne: "ys \<noteq> []" using False unfolding g .
    define s1 where "s1 = dropWhile (is_word U) cs"
    from class_run_start [of U "Alt Digit Word" "is_word U" cs, OF chars_elem] yne
    have st: "cs \<noteq> [] \<and> is_word U (hd cs)" by (simp add: ys_def)
    from plus_class_hd [of U "Alt Digit Word" "is_word U" cs, OF chars_elem chars_nonempty] st
    have hy: "hd ys = s1" by (simp add: ys_def s1_def)
    with yne obtain ys' where ys: "ys = s1 # ys'" by (cases ys) auto
    have l1: "length s1 < length s"
      unfolding s1_def s using length_dropWhile_le [of "is_word U" cs] by simp
    let ?blk = "\<lambda>s'. (if length s' < length s then rx_match U ?PG s' else []) @ [s']"
    have u: "rx_match U ?PG s = concat (map ?blk ys)"
      by (subst rx_match.simps(6)) (simp only: g)
    define h where "h = hd (rx_match U ?PG s1 @ [s1])"
    have "concat (map ?blk ys) = (rx_match U ?PG s1 @ [s1]) @ concat (map ?blk ys')"
      unfolding ys using l1 by simp
    then have hd: "hd (rx_match U ?PG s) = h"
      unfolding u h_def by (simp only: hd_append2 append_is_Nil_conv list.distinct simp_thms)
    have hle: "length h \<le> length s1"
    proof (cases "rx_match U ?PG s1")
      case Nil
      then show ?thesis by (simp add: h_def)
    next
      case (Cons z zs)
      then have "z \<in> set (rx_match U ?PG s1)" by simp
      from rx_match_length [OF this] Cons show ?thesis by (simp add: h_def)
    qed
    have "length h \<le> length x" if x: "x \<in> set (rx_match U ?PG s)" for x
    proof -
      from x obtain y where y: "y \<in> set ys" and xb: "x \<in> set (?blk y)"
        unfolding u by auto
      show ?thesis
      proof (cases "y = s1")
        case True
        with xb l1 consider "x \<in> set (rx_match U ?PG s1)" | "x = s1" by auto
        then show ?thesis
        proof cases
          case 1
          with 1(1) l1 have "length (hd (rx_match U ?PG s1)) \<le> length x"
            using "1.IH" by blast
          moreover from 1 have "rx_match U ?PG s1 \<noteq> []" by auto
          then have "h = hd (rx_match U ?PG s1)" by (simp add: h_def)
          ultimately show ?thesis by simp
        next
          case 2
          with hle show ?thesis by simp
        qed
      next
        case False
        from y have yc: "y \<in> set (rx_match U chars_rx cs)" by (simp add: ys_def)
        from plus_class_other [of U "Alt Digit Word" "is_word U", OF chars_elem yc] False
        have "y \<noteq> [] \<and> is_word U (hd y)" by (simp add: s1_def)
        with word_start_no_groups [OF H] have "rx_match U ?PG y = []" by blast
        with xb have "x = y" by simp
        moreover from plus_class_length [of U "Alt Digit Word" "is_word U", OF chars_elem yc]
        have "length s1 \<le> length y" by (simp add: s1_def)
        ultimately show ?thesis using hle by simp
      qed
    qed
    with hd show ?thesis by simp
  qed
qed

lemma token_best:
  assumes H: "\<not> is_word U 46" "\<not> is_word U 45"
  shows "\<forall>x\<in>set (rx_match U token_rx s). length (hd (rx_match U token_rx s)) \<le> length x"
proof (cases "rx_match U (Plus Digit) s = []")
  case True
  then show ?thesis by (simp add: token_rx_def)
next
  case False
  let ?PG = "Plus group_rx"
  define ys where "ys = rx_match U (Plus Digit) s"
  define s1 where "s1 = dropWhile (is_digit U) s"
  have u: "rx_match U token_rx s = concat (map (rx_match U ?PG) ys)"
    by (simp add: token_rx_def ys_def)
  from class_run_start [of U Digit "is_digit U" s, OF digit_elem] False
  have st: "s \<noteq> [] \<and> is_digit U (hd s)" by simp
  from plus_class_hd [of U Digit "is_digit U" s, OF digit_elem digit_nonempty] st False
  obtain ys' where ys: "ys = s1 # ys'" by (cases ys) (auto simp: ys_def s1_def)
  have other: "rx_match U ?PG y = []" if "y \<in> set ys" "y \<noteq> s1" for y
  proof -
    from that have "y \<in> set (rx_match U (Plus Digit) s)" by (simp add: ys_def)
    from plus_class_other [of U Digit "is_digit U", OF digit_elem this] that(2)
    have "y \<noteq> [] \<and> is_digit U (hd y)" by (simp add: s1_def)
    then have "y \<noteq> [] \<and> is_word U (hd y)" by (simp add: digit_is_word)
    with word_start_no_groups [OF H] show ?thesis by blast
  qed
  have mem: "x \<in> set (rx_match U ?PG s1)" if "x \<in> set (rx_match U token_rx s)" for x
  proof -
    from that obtain y where y: "y \<in> set ys" "x \<in> set (rx_match U ?PG y)"
      unfolding u by auto
    with other [of y] show ?thesis by (cases "y = s1") auto
  qed
  show ?thesis
  proof
    fix x assume x: "x \<in> set (rx_match U token_rx s)"
    from mem [OF x] have ne: "rx_match U ?PG s1 \<noteq> []" by auto
    have "rx_match U token_rx s = rx_match U ?PG s1 @ concat (map (rx_match U ?PG) ys')"
      unfolding u ys by simp
    then have "hd (rx_match U token_rx s) = hd (rx_match U ?PG s1)"
      using hd_append2 [OF ne] by simp
    with groups_best [OF H, of s1] mem [OF x]
    show "length (hd (rx_match U token_rx s)) \<le> length x" by simp
  qed
qed

lemma version_rx_match:
  "rx_match U version_rx s = (case s of [] \<Rightarrow> [] | c # cs \<Rightarrow> if c = 62 then rx_match U token_rx cs else [])"
  by (cases s) (simp_all add: version_rx_def sym_def)

lemma match_at_longest:
  assumes H: "\<not> is_word U 46" "\<not> is_word U 45"
    and m: "match_at U version_rx s = Some rest"
  shows "\<exists>t. s = 62 # t @ rest \<and> matches U token_rx t
           \<and> (\<forall>t' post'. t @ rest = t' @ post' \<and> matches U token_rx t' \<longrightarrow> length t' \<le> length t)"
proof -
  from match_at_Some [OF m] obtain t where s: "s = 62 # t @ rest" and t: "matches U token_rx t"
    by blast
  from m s have r: "rest = hd (rx_match U token_rx (t @ rest))"
    by (auto simp: match_at_def version_rx_match split: list.splits)
  have "length t' \<le> length t" if e: "t @ rest = t' @ post'" and m': "matches U token_rx t'"
    for t' post'
  proof -
    from rx_match_complete [OF m', of post'] e
    have "post' \<in> set (rx_match U token_rx (t @ rest))" by simp
    with token_best [OF H, of "t @ rest"] r have "length rest \<le> length post'" by auto
    moreover from e have "length t + length rest = length t' + length post'"
      by (metis length_append)
    ultimately show ?thesis by simp
  qed
  with s t show ?thesis by blast
qed

subsection \<open>Scanning\<close>

lemma scan_skip:
  assumes no: "\<not> (\<exists>t post. c # cs = 62 # t @ post \<and> matches U token_rx t)"
    and sc: "scan_spec U cs toks"
  shows "scan_spec U (c # cs) toks"
  using sc
proof (cases rule: scan_spec.cases)
  case scan_none
  have "\<forall>pre t post. c # cs = pre @ 62 # t @ post \<longrightarrow> \<not> matches U token_rx t"
  proof (intro allI impI)
    fix pre t post assume e: "c # cs = pre @ 62 # t @ post"
    show "\<not> matches U token_rx t"
    proof (cases pre)
      case Nil
      with e no show ?thesis by auto
    next
      case (Cons p pre')
      with e have "cs = pre' @ 62 # t @ post" by simp
      with scan_none(2) show ?thesis by blast
    qed
  qed
  with scan_none(1) show ?thesis by (auto intro: scan_spec.scan_none)
next
  case (scan_hit pre t post toks')
  have e0: "c # cs = (c # pre) @ 62 # t @ post" using scan_hit(2) by simp
  have lm: "\<forall>pre' t' post'. c # cs = pre' @ 62 # t' @ post' \<and> matches U token_rx t'
           \<longrightarrow> length (c # pre) \<le> length pre'"
  proof (intro allI impI)
    fix pre' t' post' assume e: "c # cs = pre' @ 62 # t' @ post' \<and> matches U token_rx t'"
    show "length (c # pre) \<le> length pre'"
    proof (cases pre')
      case Nil
      with e no show ?thesis by auto
    next
      case (Cons p pre'')
      with e have "cs = pre'' @ 62 # t' @ post' \<and> matches U token_rx t'" by simp
      with scan_hit(4) have "length pre \<le> length pre''" by blast
      with Cons show ?thesis by simp
    qed
  qed
  show ?thesis
    unfolding scan_hit(1) using e0 scan_hit(3) lm scan_hit(5) scan_hit(6)
    by (rule scan_spec.scan_hit)
qed

lemma finditer_scan_spec:
  assumes H: "\<not> is_word U 46" "\<not> is_word U 45"
  shows "scan_spec U s (map group1 (finditer U version_rx s))"
proof (induction s rule: length_induct)
  case (1 s)
  show ?case
  proof (cases "match_at U version_rx s")
    case None
    show ?thesis
    proof (cases s)
      case Nil
      with None show ?thesis
        by (subst finditer.simps) (auto intro: scan_spec.scan_none)
    next
      case (Cons c cs)
      with 1 have "scan_spec U cs (map group1 (finditer U version_rx cs))" by simp
      with match_at_None [OF None] Cons
      have "scan_spec U (c # cs) (map group1 (finditer U version_rx cs))"
        by (intro scan_skip) auto
      with None Cons show ?thesis by (subst finditer.simps) simp
    qed
  next
    case (Some rest)
    from match_at_longest [OF H Some] obtain t where s: "s = 62 # t @ rest"
      and m: "matches U token_rx t"
      and lg: "\<forall>t' post'. t @ rest = t' @ post' \<and> matches U token_rx t' \<longrightarrow> length t' \<le> length t"
      by blast
    then have l: "length rest < length s" by simp
    with 1 have ih: "scan_spec U rest (map group1 (finditer U version_rx rest))" by simp
    from s have tk: "take (length s - length rest) s = 62 # t" by simp
    have e0: "s = [] @ 62 # t @ rest" using s by simp
    have lm: "\<forall>pre' t' post'. s = pre' @ 62 # t' @ post' \<and> matches U token_rx t'
           \<longrightarrow> length ([]::str) \<le> length pre'" by simp
    from e0 m lm lg ih have "scan_spec U s (t # map group1 (finditer U version_rx rest))"
      by (rule scan_spec.scan_hit)
    with Some l tk show ?thesis by (subst finditer.simps) (simp add: group1_def)
  qed
qed

lemma scan_spec_unique:
  "scan_spec U body toks \<Longrightarrow> scan_spec U body toks' \<Longrightarrow> toks = toks'"
proof (induction arbitrary: toks' rule: scan_spec.induct)
  case (scan_none body)
  from scan_none.prems show ?case
  proof (cases rule: scan_spec.cases)
    case scan_none
    then show ?thesis by simp
  next
    case (scan_hit pre t post toks2)
    with scan_none.hyps show ?thesis by blast
  qed
next
  case (scan_hit body pre t post toks)
  from scan_hit.prems show ?case
  proof (cases rule: scan_spec.cases)
    case scan_none
    with scan_hit.hyps(1,2) show ?thesis by blast
  next
    case (scan_hit pre2 t2 post2 toks2)
    from scan_hit(2,3) \<open>\<forall>pre' t' post'. body = pre' @ 62 # t' @ post' \<and> matches U token_rx t'
           \<longrightarrow> length pre \<le> length pre'\<close>
    have "length pre \<le> length pre2" by blast
    moreover from scan_hit(4) \<open>body = pre @ 62 # t @ post\<close> \<open>matches U token_rx t\<close>
    have "length pre2 \<le> length pre" by blast
    ultimately have "length pre = length pre2" by simp
    with scan_hit(2) \<open>body = pre @ 62 # t @ post\<close> have p: "pre = pre2" and e: "t @ post = t2 @ post2"
      by auto
    from e scan_hit(3) \<open>\<forall>t' post'. t @ post = t' @ post' \<and> matches U token_rx t'
           \<longrightarrow> length t' \<le> length t\<close>
    have "length t2 \<le> length t" by blast
    moreover from e scan_hit(5) \<open>matches U token_rx t\<close> have "length t \<le> length t2"
      by (metis)
    ultimately have "length t = length t2" by simp
    with e have "t = t2" "post = post2" by auto
    with scan_hit(6) scan_hit.IH have "toks = toks2" by blast
    with \<open>t = t2\<close> scan_hit(1) show ?thesis by simp
  qed
qed

text \<open>
  Claim C2. Every collected token is a match of the token pattern that stands right
  behind a \<open>>\<close> of the body, so that no token is collected without a \<open>>\<close> before it;
  and, the dot and the hyphen not being word characters, the collected tokens are
  exactly the non-overlapping matches that the left-to-right scan finds.
\<close>

theorem tokens_are_the_matches_after_gt:
  "(\<forall>t\<in>set (extract_versions U body).
       \<exists>pre post. body = pre @ 62 # t @ post \<and> matches U token_rx t)
   \<and> (\<not> is_word U 46 \<and> \<not> is_word U 45
        \<longrightarrow> (\<forall>toks. scan_spec U body toks \<longleftrightarrow> toks = extract_versions U body))"
proof (intro conjI ballI impI allI)
  fix t assume "t \<in> set (extract_versions U body)"
  then show "\<exists>pre post. body = pre @ 62 # t @ post \<and> matches U token_rx t"
    unfolding extract_versions_def by (rule finditer_occurs)
next
  fix toks assume "\<not> is_word U 46 \<and> \<not> is_word U 45"
  then have s: "scan_spec U body (extract_versions U body)"
    unfolding extract_versions_def by (intro finditer_scan_spec) simp_all
  show "scan_spec U body toks \<longleftrightarrow> toks = extract_versions U body"
  proof
    assume "scan_spec U body toks"
    then show "toks = extract_versions U body" using s by (rule scan_spec_unique)
  next
    assume "toks = extract_versions U body"
    with s show "scan_spec U body toks" by simp
  qed
qed

lemma tokens_of_one_entry: "extract_versions ascii_ucd (ustr ''>3.9.0'') = [ustr ''3.9.0'']"
  by code_simp

lemma ascii_separators: "\<not> is_word ascii_ucd 46 \<and> \<not> is_word ascii_ucd 45"
  by (simp add: is_word_def isalnum_def ascii_ucd_def)

theorem simple_pattern_same_tokens_witness:
  "map group1 (finditer ascii_ucd version_rx_simple (ustr ''>3.9.0'')) = [ustr ''3.9.0'']"
  using simple_pattern_same_tokens [of ascii_ucd "ustr ''>3.9.0''"] by (simp add: tokens_of_one_entry)

theorem tokens_are_the_matches_after_gt_witness:
  "\<not> is_word ascii_ucd 46 \<and> \<not> is_word ascii_ucd 45
   \<and> scan_spec ascii_ucd (ustr ''>3.9.0'') [ustr ''3.9.0'']
   \<and> (\<exists>pre post. ustr ''>3.9.0'' = pre @ 62 # ustr ''3.9.0'' @ post
         \<and> matches ascii_ucd token_rx (ustr ''3.9.0''))"
  using tokens_are_the_matches_after_gt [of ascii_ucd "ustr ''>3.9.0''"] ascii_separators
  by (simp add: tokens_of_one_entry)

subsection \<open>Decoding\<close>

lemma divmod_64: "r < 64 \<Longrightarrow> (q * 64 + r) div 64 = q \<and> (q * 64 + r) mod 64 = (r::nat)"
  by simp

lemma div_4096: "(n::nat) div 4096 = n div 64 div 64"
  by (simp add: div_mult2_eq [symmetric])

lemma div_262144: "(n::nat) div 262144 = n div 64 div 64 div 64"
  by (simp add: div_mult2_eq [symmetric])

lemma dec2:
  assumes "192 \<le> b0" "b0 < 224" "is_cont b1" "c = (b0 - 192) * 64 + (b1 - 128)" "128 \<le> c"
  shows "utf8_encode_cp c = [b0, b1] \<and> is_scalar c"
proof -
  define x y where "x = b0 - 192" and "y = b1 - 128"
  have x: "b0 = 192 + x" "x < 32" and y: "b1 = 128 + y" "y < 64"
    using assms(1-3) unfolding is_cont_def x_def y_def by arith+
  have c: "c = x * 64 + y" using assms(4) by (simp add: x_def y_def)
  have d: "c div 64 = x" "c mod 64 = y"
    unfolding c using divmod_64 [OF y(2), of x] by blast+
  have "c < 2048" using x(2) y(2) c by arith
  with d assms(5) x(1) y(1) show ?thesis by (simp add: utf8_encode_cp_def is_scalar_def)
qed

lemma dec3:
  assumes "224 \<le> b0" "b0 < 240" "is_cont b1" "is_cont b2"
    "c = (b0 - 224) * 4096 + (b1 - 128) * 64 + (b2 - 128)" "2048 \<le> c"
    "\<not> (55296 \<le> c \<and> c < 57344)"
  shows "utf8_encode_cp c = [b0, b1, b2] \<and> is_scalar c"
proof -
  define x y z where "x = b0 - 224" and "y = b1 - 128" and "z = b2 - 128"
  define m where "m = x * 64 + y"
  have x: "b0 = 224 + x" "x < 16" and y: "b1 = 128 + y" "y < 64" and z: "b2 = 128 + z" "z < 64"
    using assms(1-4) unfolding is_cont_def x_def y_def z_def by arith+
  have c: "c = m * 64 + z" using assms(5) by (simp add: x_def y_def z_def m_def)
  have d1: "c div 64 = m" "c mod 64 = z"
    unfolding c using divmod_64 [OF z(2), of m] by blast+
  have d2: "m div 64 = x" "m mod 64 = y"
    unfolding m_def using divmod_64 [OF y(2), of x] by blast+
  have d3: "c div 4096 = x" "c div 64 mod 64 = y"
    by (simp_all only: div_4096 d1 d2)
  have "m < 1024" using x(2) y(2) unfolding m_def by arith
  then have lt: "c < 65536" using z(2) unfolding c by arith
  have sc: "is_scalar c" using lt assms(7) unfolding is_scalar_def by arith
  have n1: "\<not> c < 128" "\<not> c < 2048" using assms(6) by arith+
  have "utf8_encode_cp c = [224 + c div 4096, 128 + c div 64 mod 64, 128 + c mod 64]"
    unfolding utf8_encode_cp_def using n1 lt by (simp only: if_False if_True)
  then have "utf8_encode_cp c = [b0, b1, b2]"
    by (simp only: d3 d1 d2 x(1) y(1) z(1))
  with sc show ?thesis by blast
qed


lemma dec4:
  assumes "240 \<le> b0" "b0 < 248" "is_cont b1" "is_cont b2" "is_cont b3"
    "c = (b0 - 240) * 262144 + (b1 - 128) * 4096 + (b2 - 128) * 64 + (b3 - 128)"
    "65536 \<le> c" "c < 1114112"
  shows "utf8_encode_cp c = [b0, b1, b2, b3] \<and> is_scalar c"
proof -
  define x y z w where "x = b0 - 240" and "y = b1 - 128" and "z = b2 - 128" and "w = b3 - 128"
  define m2 where "m2 = x * 64 + y"
  define m1 where "m1 = m2 * 64 + z"
  have x: "b0 = 240 + x" "x < 8" and y: "b1 = 128 + y" "y < 64" and z: "b2 = 128 + z" "z < 64"
    and w: "b3 = 128 + w" "w < 64"
    using assms(1-5) unfolding is_cont_def x_def y_def z_def w_def by arith+
  have c: "c = m1 * 64 + w"
    using assms(6) by (simp add: x_def y_def z_def w_def m1_def m2_def)
  have d1: "c div 64 = m1" "c mod 64 = w"
    unfolding c using divmod_64 [OF w(2), of m1] by blast+
  have d2: "m1 div 64 = m2" "m1 mod 64 = z"
    unfolding m1_def using divmod_64 [OF z(2), of m2] by blast+
  have d3: "m2 div 64 = x" "m2 mod 64 = y"
    unfolding m2_def using divmod_64 [OF y(2), of x] by blast+
  have d4: "c div 262144 = x" "c div 4096 mod 64 = y" "c div 64 mod 64 = z"
    by (simp_all only: div_4096 div_262144 d1 d2 d3)
  from d1(2) d4 assms(7,8) x(1) y(1) z(1) w(1) show ?thesis
    by (simp add: utf8_encode_cp_def is_scalar_def)
qed


lemma utf8_decode_step:
  assumes "utf8_decode (b0 # bs) = Some cps"
  shows "\<exists>c r cs. b0 # bs = utf8_encode_cp c @ r \<and> is_scalar c
           \<and> utf8_decode r = Some cs \<and> cps = c # cs \<and> length r < length (b0 # bs)"
proof -
  consider (one) "b0 < 128" | (two) "192 \<le> b0" "b0 < 224" | (three) "224 \<le> b0" "b0 < 240"
    | (four) "240 \<le> b0" "b0 < 248" | (bad) "128 \<le> b0" "b0 < 192" | (big) "248 \<le> b0"
    by linarith
  then show ?thesis
  proof cases
    case one
    with assms obtain cs where "utf8_decode bs = Some cs" "cps = b0 # cs" by auto
    moreover from one have "utf8_encode_cp b0 = [b0]" "is_scalar b0"
      by (simp_all add: utf8_encode_cp_def is_scalar_def)
    ultimately show ?thesis by auto
  next
    case two
    with assms obtain b1 r where bs: "bs = b1 # r" by (cases bs) auto
    define c where "c = (b0 - 192) * 64 + (b1 - 128)"
    from assms two bs have ok: "is_cont b1" "128 \<le> c"
      and "map_option ((#) c) (utf8_decode r) = Some cps"
      by (auto simp: c_def Let_def split: if_splits)
    then obtain cs where cs: "utf8_decode r = Some cs" "cps = c # cs" by auto
    from dec2 [OF two ok(1) c_def ok(2)] bs cs show ?thesis by auto
  next
    case three
    with assms obtain b1 b2 r where bs: "bs = b1 # b2 # r"
      by (cases bs; cases "tl bs") auto
    define c where "c = (b0 - 224) * 4096 + (b1 - 128) * 64 + (b2 - 128)"
    from assms three bs have ok: "is_cont b1" "is_cont b2" "2048 \<le> c" "\<not> (55296 \<le> c \<and> c < 57344)"
      and "map_option ((#) c) (utf8_decode r) = Some cps"
      by (auto simp: c_def Let_def split: if_splits)
    then obtain cs where cs: "utf8_decode r = Some cs" "cps = c # cs" by auto
    from dec3 [OF three ok(1,2) c_def ok(3,4)] bs cs show ?thesis by auto
  next
    case four
    with assms obtain b1 b2 b3 r where bs: "bs = b1 # b2 # b3 # r"
      by (cases bs; cases "tl bs"; cases "tl (tl bs)") auto
    define c where "c = (b0 - 240) * 262144 + (b1 - 128) * 4096 + (b2 - 128) * 64 + (b3 - 128)"
    from assms four bs have ok: "is_cont b1" "is_cont b2" "is_cont b3" "65536 \<le> c" "c < 1114112"
      and "map_option ((#) c) (utf8_decode r) = Some cps"
      by (auto simp: c_def Let_def split: if_splits)
    then obtain cs where cs: "utf8_decode r = Some cs" "cps = c # cs" by auto
    from dec4 [OF four ok(1,2,3) c_def ok(4,5)] bs cs show ?thesis by auto
  next
    case bad
    with assms show ?thesis by simp
  next
    case big
    with assms show ?thesis by simp
  qed
qed

lemma utf8_decode_sound:
  "utf8_decode bs = Some cps \<Longrightarrow> list_all is_scalar cps \<and> utf8_encode cps = bs"
proof (induction bs arbitrary: cps rule: length_induct)
  case (1 bs)
  show ?case
  proof (cases bs)
    case Nil
    with 1(2) show ?thesis by (simp add: utf8_encode_def)
  next
    case (Cons b0 bs')
    with 1(2) have "utf8_decode (b0 # bs') = Some cps" by simp
    from utf8_decode_step [OF this] obtain c r cs where
      e: "b0 # bs' = utf8_encode_cp c @ r" and c: "is_scalar c"
      and r: "utf8_decode r = Some cs" and cps: "cps = c # cs"
      and l: "length r < length (b0 # bs')" by blast
    from 1(1) l r Cons have "list_all is_scalar cs \<and> utf8_encode cs = r" by simp
    with e c cps Cons show ?thesis by (simp add: utf8_encode_def)
  qed
qed

lemma enc_dec2:
  assumes "128 \<le> c" "c < 2048"
  shows "utf8_decode ((192 + c div 64) # (128 + c mod 64) # bs) = map_option ((#) c) (utf8_decode bs)"
proof -
  have q: "c div 64 < 32" using assms(2) by simp
  have v: "c div 64 * 64 + c mod 64 = c" by simp
  have ct: "is_cont (128 + c mod 64)" by (simp add: is_cont_def)
  from q have r: "\<not> 192 + c div 64 < 128" "192 \<le> 192 + c div 64" "192 + c div 64 < 224" by simp_all
  show ?thesis
    by (simp only: utf8_decode.simps r if_False if_True simp_thms list.case Let_def
          add_diff_cancel_left' v ct assms(1))
qed

lemma val3: "c div 4096 * 4096 + c div 64 mod 64 * 64 + c mod 64 = (c::nat)"
proof -
  define q where "q = c div 64"
  have "(q div 64 * 64 + q mod 64) * 64 = q div 64 * 4096 + q mod 64 * 64"
    unfolding add_mult_distrib by simp
  moreover have "(q div 64 * 64 + q mod 64) * 64 = q * 64" by simp
  ultimately have "q div 64 * 4096 + q mod 64 * 64 = q * 64" by (rule trans [OF sym])
  then have "q div 64 * 4096 + q mod 64 * 64 + c mod 64 = c" by (simp add: q_def)
  then show ?thesis by (simp only: div_4096 q_def)
qed

lemma val4:
  "c div 262144 * 262144 + c div 4096 mod 64 * 4096 + c div 64 mod 64 * 64 + c mod 64 = (c::nat)"
proof -
  define q where "q = c div 64"
  have "q div 4096 * 4096 + q div 64 mod 64 * 64 + q mod 64 = q" by (rule val3)
  then have "(q div 4096 * 4096 + q div 64 mod 64 * 64 + q mod 64) * 64 + c mod 64 = c"
    by (simp add: q_def)
  moreover have "c div 262144 = q div 4096" "c div 4096 = q div 64"
    by (simp_all only: div_4096 div_262144 q_def)
  ultimately show ?thesis by (simp add: q_def algebra_simps)
qed

lemma enc_dec3:
  assumes "2048 \<le> c" "c < 65536" "\<not> (55296 \<le> c \<and> c < 57344)"
  shows "utf8_decode ((224 + c div 4096) # (128 + c div 64 mod 64) # (128 + c mod 64) # bs)
         = map_option ((#) c) (utf8_decode bs)"
proof -
  have q: "c div 4096 < 16" using assms(2) by simp
  have ct: "is_cont (128 + c div 64 mod 64)" "is_cont (128 + c mod 64)" by (simp_all add: is_cont_def)
  from q have r: "\<not> 224 + c div 4096 < 128" "\<not> (192 \<le> 224 + c div 4096 \<and> 224 + c div 4096 < 224)"
    "224 \<le> 224 + c div 4096" "224 + c div 4096 < 240" by simp_all
  show ?thesis
    by (simp only: utf8_decode.simps r if_False if_True simp_thms list.case Let_def
          add_diff_cancel_left' val3 ct assms)
qed

lemma enc_dec4:
  assumes "65536 \<le> c" "c < 1114112"
  shows "utf8_decode ((240 + c div 262144) # (128 + c div 4096 mod 64) # (128 + c div 64 mod 64)
            # (128 + c mod 64) # bs)
         = map_option ((#) c) (utf8_decode bs)"
proof -
  have q: "c div 262144 < 8" using assms(2) by simp
  have ct: "is_cont (128 + c div 4096 mod 64)" "is_cont (128 + c div 64 mod 64)"
    "is_cont (128 + c mod 64)" by (simp_all add: is_cont_def)
  from q have r: "\<not> 240 + c div 262144 < 128"
    "\<not> (192 \<le> 240 + c div 262144 \<and> 240 + c div 262144 < 224)"
    "\<not> (224 \<le> 240 + c div 262144 \<and> 240 + c div 262144 < 240)"
    "240 \<le> 240 + c div 262144" "240 + c div 262144 < 248" by simp_all
  show ?thesis
    by (simp only: utf8_decode.simps r if_False if_True simp_thms list.case Let_def
          add_diff_cancel_left' val4 ct assms)
qed

lemma utf8_decode_encode_cp:
  assumes "is_scalar c"
  shows "utf8_decode (utf8_encode_cp c @ bs) = map_option ((#) c) (utf8_decode bs)"
proof -
  consider "c < 128" | "128 \<le> c" "c < 2048" | "2048 \<le> c" "c < 65536" | "65536 \<le> c"
    by linarith
  then show ?thesis
  proof cases
    case 1
    then show ?thesis by (simp add: utf8_encode_cp_def)
  next
    case 2
    then have "utf8_encode_cp c = [192 + c div 64, 128 + c mod 64]"
      by (simp add: utf8_encode_cp_def)
    with enc_dec2 [OF 2] show ?thesis by simp
  next
    case 3
    from 3 assms have s: "\<not> (55296 \<le> c \<and> c < 57344)" unfolding is_scalar_def by arith
    from 3 have "utf8_encode_cp c = [224 + c div 4096, 128 + c div 64 mod 64, 128 + c mod 64]"
      by (simp add: utf8_encode_cp_def)
    with enc_dec3 [OF 3 s] show ?thesis by simp
  next
    case 4
    with assms have l: "c < 1114112" by (simp add: is_scalar_def)
    from 4 have "utf8_encode_cp c =
        [240 + c div 262144, 128 + c div 4096 mod 64, 128 + c div 64 mod 64, 128 + c mod 64]"
      by (simp add: utf8_encode_cp_def)
    with enc_dec4 [OF 4 l] show ?thesis by simp
  qed
qed

lemma utf8_decode_encode:
  "list_all is_scalar cps \<Longrightarrow> utf8_decode (utf8_encode cps) = Some cps"
  by (induction cps) (simp_all add: utf8_encode_def utf8_decode_encode_cp)

lemma valid_utf8_iff: "valid_utf8 bs \<longleftrightarrow> utf8_decode bs \<noteq> None"
proof
  assume "valid_utf8 bs"
  then show "utf8_decode bs \<noteq> None"
    by (auto simp: valid_utf8_def utf8_decode_encode)
next
  assume "utf8_decode bs \<noteq> None"
  then obtain cps where "utf8_decode bs = Some cps" by auto
  from utf8_decode_sound [OF this] show "valid_utf8 bs"
    by (auto simp: valid_utf8_def)
qed

text \<open>
  Claim C7. When the response body is not valid UTF-8, the call fails with the decode
  error (\<open>UnicodeDecodeError\<close>), which nothing in \<open>bin_list\<close> catches, and returns no URLs.
\<close>

theorem invalid_utf8_raises_decode_error:
  assumes "respond w (strip 47 url) = Inr raw" and "\<not> valid_utf8 raw"
  shows "fst (bin_list U w url) = Inl UnicodeDecodeError"
  using assms by (simp add: bin_list_fst valid_utf8_iff)

theorem invalid_utf8_raises_decode_error_witness:
  "respond (serving [255]) (strip 47 (ustr ''http://h/m/'')) = Inr [255] \<and> \<not> valid_utf8 [255]
   \<and> fst (bin_list ascii_ucd (serving [255]) (ustr ''http://h/m/'')) = Inl UnicodeDecodeError"
proof -
  have v: "\<not> valid_utf8 [255]" by (simp add: valid_utf8_iff)
  from invalid_utf8_raises_decode_error [OF serving_respond v] v show ?thesis
    by (simp add: serving_respond)
qed

end
